theory Spec2Isabelle
  imports Complex_Main "HOL-Library.Signed_Division" "HOL-Library.Word"
begin

section \<open>FakeNetworkPipe (fake\_network\_pipe.cc)\<close>

text \<open>
  The C++ class keeps two FIFO queues of heap-allocated \<open>NetworkPacket\<close> objects and
  three counters, all guarded by one lock. The model is sequential: every public method
  is a function from the state before the call to the state after it, which is what the
  lock makes of each call. A method that reads \<open>TickTime::MillisecondTimestamp()\<close>
  takes the value read as the argument \<open>time_now\<close>.

  Representation choices.
  \<^item> The caller's buffer \<open>(void* data, int data_length)\<close> is a list of bytes; its
    length is \<open>data_length\<close>. A negative \<open>data_length\<close> has no such buffer (the
    allocation \<open>new uint8_t[length]\<close> in the packet constructor cannot succeed), so the
    type excludes it.
  \<^item> Times are \<open>int64_t\<close> milliseconds in the source and \<open>int\<close> here. Signed overflow
    is undefined in C++, so the model describes the executions in which the sums of
    times stay inside 64 bits.
  \<^item> \<open>int / int\<close> is the truncating division of C, \<open>sdiv\<close> on \<open>int\<close>.
  \<^item> The header that declares the members is not part of the sources at hand. The
    counters \<open>dropped_packets_\<close> and \<open>sent_packets_\<close> are modelled as \<open>nat\<close> and
    \<open>total_packet_delay_\<close> as \<open>int\<close>, without a word size. The return type of
    \<open>AverageDelay\<close> is in the source: a 32-bit \<open>int\<close>, to which the quotient is
    converted.
  \<^item> \<open>PercentageLoss\<close> returns a C++ \<open>float\<close>. The model returns the exact quotient
    as a \<open>real\<close>; the C++ value is that quotient rounded to single precision.
  \<^item> \<open>packet_receiver_\<close> is an external object. Its effect is recorded in the field
    \<open>received\<close>: the arguments of every \<open>IncomingPacket\<close> call, oldest first.
\<close>

type_synonym byte = "8 word"

record NetworkPacket =
  data :: "byte list"
  data_length :: int
  send_time :: int
  arrival_time :: int

definition NetworkPacket_new :: "byte list \<Rightarrow> int \<Rightarrow> int \<Rightarrow> NetworkPacket" where
  "NetworkPacket_new buf st arr =
     \<lparr>data = buf, data_length = int (length buf), send_time = st, arrival_time = arr\<rparr>"

definition IncrementArrivalTime :: "NetworkPacket \<Rightarrow> int \<Rightarrow> NetworkPacket" where
  "IncrementArrivalTime pkt extra_delay =
     pkt\<lparr>arrival_time := arrival_time pkt + extra_delay\<rparr>"

record FakeNetworkPipe =
  queue_length :: nat
  queue_delay_ms :: int
  link_capacity_bytes_ms :: int
  loss_percent :: int
  dropped_packets :: nat
  sent_packets :: nat
  total_packet_delay :: int
  capacity_link :: "NetworkPacket list"
  delay_link :: "NetworkPacket list"
  received :: "(byte list \<times> int) list"

datatype failure = AssertionFailed

text \<open>
  The constructor stores \<open>link_capacity_kbps / 8\<close> and asserts that the stored value is
  positive. A failed assertion aborts the program: \<open>Inl AssertionFailed\<close>. (The model is
  of a build in which \<open>assert\<close> is compiled in.)
\<close>

definition FakeNetworkPipe_new ::
  "nat \<Rightarrow> int \<Rightarrow> int \<Rightarrow> int \<Rightarrow> failure + FakeNetworkPipe" where
  "FakeNetworkPipe_new queue_len queue_delay link_capacity_kbps loss =
     (let p = \<lparr>queue_length = queue_len,
               queue_delay_ms = queue_delay,
               link_capacity_bytes_ms = link_capacity_kbps sdiv 8,
               loss_percent = loss,
               dropped_packets = 0,
               sent_packets = 0,
               total_packet_delay = 0,
               capacity_link = [],
               delay_link = [],
               received = []\<rparr>
      in if link_capacity_bytes_ms p > 0 then Inr p else Inl AssertionFailed)"

text \<open>
  \<open>SendPacket\<close>. The divisor \<open>link_capacity_bytes_ms_\<close> is a constant member, positive
  in every pipe the constructor returns.
\<close>

definition SendPacket :: "byte list \<Rightarrow> int \<Rightarrow> FakeNetworkPipe \<Rightarrow> FakeNetworkPipe" where
  "SendPacket buf time_now p =
     (if length (capacity_link p) \<ge> queue_length p
      then p\<lparr>dropped_packets := dropped_packets p + 1\<rparr>
      else
        let capacity_delay_ms = int (length buf) sdiv link_capacity_bytes_ms p;
            network_start_time =
              (if length (capacity_link p) > 0
               then arrival_time (last (capacity_link p))
               else time_now);
            arrival = network_start_time + capacity_delay_ms
        in p\<lparr>capacity_link :=
               capacity_link p @ [NetworkPacket_new buf time_now arrival]\<rparr>)"

definition PercentageLoss :: "FakeNetworkPipe \<Rightarrow> real" where
  "PercentageLoss p =
     (if sent_packets p = 0 then 0
      else real (dropped_packets p) / real (sent_packets p + dropped_packets p))"

text \<open>
  \<open>AverageDelay\<close> returns a C++ \<open>int\<close>. \<open>to_cpp_int\<close> is the conversion of an integer
  value to that 32-bit type: the value itself when it is in the range from \<open>- 2^31\<close> to
  \<open>2^31 - 1\<close>, and otherwise the value of that range that differs from it by a multiple
  of \<open>2^32\<close>.
\<close>

definition to_cpp_int :: "int \<Rightarrow> int" where
  "to_cpp_int v = (v + 2147483648) mod 4294967296 - 2147483648"

definition AverageDelay :: "FakeNetworkPipe \<Rightarrow> int" where
  "AverageDelay p =
     (if sent_packets p = 0 then 0
      else to_cpp_int (total_packet_delay p sdiv int (sent_packets p)))"

text \<open>
  The first loop of \<open>NetworkProcess\<close>: while the head of the capacity queue has arrived,
  pop it, add the fixed queue delay to its arrival time and push it on the delay queue.
  The result is the pair of queues when the loop stops.
\<close>

fun capacity_loop ::
  "int \<Rightarrow> int \<Rightarrow> NetworkPacket list \<Rightarrow> NetworkPacket list
     \<Rightarrow> NetworkPacket list \<times> NetworkPacket list" where
  "capacity_loop time_now qd [] dl = ([], dl)"
| "capacity_loop time_now qd (pkt # cl) dl =
     (if time_now \<ge> arrival_time pkt
      then capacity_loop time_now qd cl (dl @ [IncrementArrivalTime pkt qd])
      else (pkt # cl, dl))"

text \<open>
  The second loop: while the head of the delay queue has arrived, pop it, hand it to the
  receiver, count it and add its time on the link to the total.
\<close>

fun delay_loop :: "int \<Rightarrow> NetworkPacket list \<Rightarrow> FakeNetworkPipe \<Rightarrow> FakeNetworkPipe" where
  "delay_loop time_now [] p = p\<lparr>delay_link := []\<rparr>"
| "delay_loop time_now (pkt # dl) p =
     (if time_now \<ge> arrival_time pkt
      then delay_loop time_now dl
             (p\<lparr>received := received p @ [(data pkt, data_length pkt)],
                sent_packets := sent_packets p + 1,
                total_packet_delay :=
                  total_packet_delay p + (arrival_time pkt - send_time pkt)\<rparr>)
      else p\<lparr>delay_link := pkt # dl\<rparr>)"

definition NetworkProcess :: "int \<Rightarrow> FakeNetworkPipe \<Rightarrow> FakeNetworkPipe" where
  "NetworkProcess time_now p =
     (if length (capacity_link p) = 0 \<and> length (delay_link p) = 0 then p
      else
        case capacity_loop time_now (queue_delay_ms p) (capacity_link p) (delay_link p) of
          (cl, dl) \<Rightarrow> delay_loop time_now dl (p\<lparr>capacity_link := cl\<rparr>))"

subsection \<open>Sequences of calls\<close>

text \<open>
  A call of one of the two mutating methods, with the clock reading at the call.
  \<open>run\<close> performs a list of calls in order.
\<close>

datatype pipe_call = Send "byte list" int | Process int

fun call_time :: "pipe_call \<Rightarrow> int" where
  "call_time (Send buf t) = t"
| "call_time (Process t) = t"

fun apply_call :: "pipe_call \<Rightarrow> FakeNetworkPipe \<Rightarrow> FakeNetworkPipe" where
  "apply_call (Send buf t) p = SendPacket buf t p"
| "apply_call (Process t) p = NetworkProcess t p"

fun run :: "pipe_call list \<Rightarrow> FakeNetworkPipe \<Rightarrow> FakeNetworkPipe" where
  "run [] p = p"
| "run (c # cs) p = run cs (apply_call c p)"

text \<open>
  The invariant behind the order of the queues. \<open>t\<close> is the latest clock reading so far.
  Every packet of the delay queue left the capacity queue at a reading not after \<open>t\<close>,
  and ahead of every packet still in the capacity queue.
\<close>

definition pipe_inv :: "int \<Rightarrow> FakeNetworkPipe \<Rightarrow> bool" where
  "pipe_inv t p \<longleftrightarrow>
     0 < link_capacity_bytes_ms p \<and>
     sorted (map arrival_time (capacity_link p)) \<and>
     sorted (map arrival_time (delay_link p)) \<and>
     (\<forall>x \<in> set (delay_link p).
        arrival_time x \<le> t + queue_delay_ms p \<and>
        (\<forall>y \<in> set (capacity_link p). arrival_time x \<le> arrival_time y + queue_delay_ms p))"

text \<open>
  The packets that are in the delay queue after the first loop of \<open>NetworkProcess\<close> at
  clock reading \<open>t\<close>: the old delay queue, then the packets taken from the front of the
  capacity queue, each with the queue delay added.
\<close>

definition moved :: "int \<Rightarrow> FakeNetworkPipe \<Rightarrow> NetworkPacket list" where
  "moved t p = delay_link p @ map (\<lambda>x. IncrementArrivalTime x (queue_delay_ms p))
                 (takeWhile (\<lambda>x. arrival_time x \<le> t) (capacity_link p))"

text \<open>Inputs for running the model: a list of \<open>SendPacket\<close> calls, and a pipe as the
  constructor leaves it (no loss, the given bytes per millisecond).\<close>

definition sends :: "(byte list \<times> int) list \<Rightarrow> pipe_call list" where
  "sends pkts = map (\<lambda>(buf, t). Send buf t) pkts"

definition test_pipe :: "nat \<Rightarrow> int \<Rightarrow> int \<Rightarrow> FakeNetworkPipe" where
  "test_pipe ql qd bytes_ms =
     \<lparr>queue_length = ql, queue_delay_ms = qd, link_capacity_bytes_ms = bytes_ms,
      loss_percent = 0, dropped_packets = 0, sent_packets = 0, total_packet_delay = 0,
      capacity_link = [], delay_link = [], received = []\<rparr>"

section \<open>Stats (bwe\_test\_framework.h)\<close>

text \<open>
  \<open>Stats<T>\<close> is a template over the sample type \<open>T\<close>; the repository instantiates it
  at \<open>double\<close>. The model takes the arithmetic of \<open>T\<close> as a parameter: a record of the
  operations the class uses (\<open>static_cast<T>(0)\<close>, \<open>+\<close>, \<open>-\<close>, \<open>*\<close>, \<open>/\<close>, the conversion
  \<open>static_cast<T>(size)\<close> and \<open><\<close>). No law is assumed of them, so what is proved holds
  for floating-point arithmetic as for any other.

  The members \<open>data_\<close>, \<open>mean_\<close>, \<open>variance_\<close>, \<open>min_\<close>, \<open>max_\<close> carry the prefix
  \<open>stats_\<close> here. A getter returns its value with the state after the call; a failed
  \<open>assert\<close> is \<open>Inl AssertionFailed\<close>.
\<close>

record 'a arith =
  T_zero :: 'a
  T_add :: "'a \<Rightarrow> 'a \<Rightarrow> 'a"
  T_sub :: "'a \<Rightarrow> 'a \<Rightarrow> 'a"
  T_mul :: "'a \<Rightarrow> 'a \<Rightarrow> 'a"
  T_div :: "'a \<Rightarrow> 'a \<Rightarrow> 'a"
  T_of_size :: "nat \<Rightarrow> 'a"
  T_less :: "'a \<Rightarrow> 'a \<Rightarrow> bool"

record 'a Stats =
  stats_data :: "'a list"
  last_mean_count :: nat
  last_variance_count :: nat
  last_minmax_count :: nat
  stats_mean :: 'a
  stats_variance :: 'a
  stats_min :: 'a
  stats_max :: 'a

definition Stats_new :: "'a arith \<Rightarrow> 'a Stats" where
  "Stats_new ops =
     \<lparr>stats_data = [],
      last_mean_count = 0,
      last_variance_count = 0,
      last_minmax_count = 0,
      stats_mean = T_zero ops,
      stats_variance = T_zero ops,
      stats_min = T_zero ops,
      stats_max = T_zero ops\<rparr>"

definition Push :: "'a \<Rightarrow> 'a Stats \<Rightarrow> 'a Stats" where
  "Push data_point s = s\<lparr>stats_data := stats_data s @ [data_point]\<rparr>"

text \<open>\<open>std::accumulate(first, last, init)\<close>: \<open>init = init + *it\<close> from left to right.\<close>

fun accumulate :: "'a arith \<Rightarrow> 'a list \<Rightarrow> 'a \<Rightarrow> 'a" where
  "accumulate ops [] init = init"
| "accumulate ops (x # xs) init = accumulate ops xs (T_add ops init x)"

definition GetMean :: "'a arith \<Rightarrow> 'a Stats \<Rightarrow> failure + ('a \<times> 'a Stats)" where
  "GetMean ops s =
     (if last_mean_count s \<noteq> length (stats_data s) then
        let s1 = s\<lparr>last_mean_count := length (stats_data s)\<rparr>;
            s2 = s1\<lparr>stats_mean := accumulate ops (stats_data s1) (T_zero ops)\<rparr>
        in if last_mean_count s2 \<noteq> 0
           then
             let s3 = s2\<lparr>stats_mean :=
                          T_div ops (stats_mean s2) (T_of_size ops (last_mean_count s2))\<rparr>
             in Inr (stats_mean s3, s3)
           else Inl AssertionFailed
      else Inr (stats_mean s, s))"

text \<open>The loop of \<open>GetVariance\<close>: \<open>variance_ += (x - mean) * (x - mean)\<close> for each sample.\<close>

fun variance_loop :: "'a arith \<Rightarrow> 'a \<Rightarrow> 'a list \<Rightarrow> 'a \<Rightarrow> 'a" where
  "variance_loop ops mean [] v = v"
| "variance_loop ops mean (x # xs) v =
     (let diff = T_sub ops x mean
      in variance_loop ops mean xs (T_add ops v (T_mul ops diff diff)))"

definition GetVariance :: "'a arith \<Rightarrow> 'a Stats \<Rightarrow> failure + ('a \<times> 'a Stats)" where
  "GetVariance ops s =
     (if last_variance_count s \<noteq> length (stats_data s) then
        let s1 = s\<lparr>last_variance_count := length (stats_data s)\<rparr>
        in case GetMean ops s1 of
             Inl e \<Rightarrow> Inl e
           | Inr (mean, s2) \<Rightarrow>
               let s3 = s2\<lparr>stats_variance :=
                            variance_loop ops mean (stats_data s2) (T_zero ops)\<rparr>
               in if last_variance_count s3 \<noteq> 0
                  then
                    let s4 = s3\<lparr>stats_variance :=
                                 T_div ops (stats_variance s3)
                                   (T_of_size ops (last_variance_count s3))\<rparr>
                    in Inr (stats_variance s4, s4)
                  else Inl AssertionFailed
      else Inr (stats_variance s, s))"

text \<open>\<open>std::min(a, b)\<close> is \<open>(b < a) ? b : a\<close> and \<open>std::max(a, b)\<close> is \<open>(a < b) ? b : a\<close>.\<close>

definition std_min :: "'a arith \<Rightarrow> 'a \<Rightarrow> 'a \<Rightarrow> 'a" where
  "std_min ops a b = (if T_less ops b a then b else a)"

definition std_max :: "'a arith \<Rightarrow> 'a \<Rightarrow> 'a \<Rightarrow> 'a" where
  "std_max ops a b = (if T_less ops a b then b else a)"

fun minmax_loop :: "'a arith \<Rightarrow> 'a list \<Rightarrow> 'a Stats \<Rightarrow> 'a Stats" where
  "minmax_loop ops [] s = s"
| "minmax_loop ops (x # xs) s =
     minmax_loop ops xs
       (s\<lparr>stats_min := std_min ops (stats_min s) x,
          stats_max := std_max ops (stats_max s) x\<rparr>)"

definition RefreshMinMax :: "'a arith \<Rightarrow> 'a Stats \<Rightarrow> 'a Stats" where
  "RefreshMinMax ops s =
     (if last_minmax_count s \<noteq> length (stats_data s) then
        let s1 = s\<lparr>last_minmax_count := length (stats_data s),
                   stats_min := T_zero ops, stats_max := T_zero ops\<rparr>
        in case stats_data s1 of
             [] \<Rightarrow> s1
           | x # xs \<Rightarrow> minmax_loop ops xs (s1\<lparr>stats_min := x, stats_max := x\<rparr>)
      else s)"

definition GetMin :: "'a arith \<Rightarrow> 'a Stats \<Rightarrow> failure + ('a \<times> 'a Stats)" where
  "GetMin ops s = (let s1 = RefreshMinMax ops s in Inr (stats_min s1, s1))"

definition GetMax :: "'a arith \<Rightarrow> 'a Stats \<Rightarrow> failure + ('a \<times> 'a Stats)" where
  "GetMax ops s = (let s1 = RefreshMinMax ops s in Inr (stats_max s1, s1))"

subsection \<open>Sequences of pushes and reads\<close>

fun push_all :: "'a list \<Rightarrow> 'a Stats \<Rightarrow> 'a Stats" where
  "push_all [] s = s"
| "push_all (x # xs) s = push_all xs (Push x s)"

datatype getter = Mean | Variance | Min | Max



text \<open>
  What each getter returns as a function of the samples alone. These are used to state
  the invariant that a cache whose count matches the number of samples holds the value
  computed from the samples.
\<close>

definition mean_of :: "'a arith \<Rightarrow> 'a list \<Rightarrow> 'a" where
  "mean_of ops xs =
     (if xs = [] then T_zero ops
      else T_div ops (accumulate ops xs (T_zero ops)) (T_of_size ops (length xs)))"

definition variance_of :: "'a arith \<Rightarrow> 'a list \<Rightarrow> 'a" where
  "variance_of ops xs =
     (if xs = [] then T_zero ops
      else T_div ops (variance_loop ops (mean_of ops xs) xs (T_zero ops))
             (T_of_size ops (length xs)))"

fun fold_min :: "'a arith \<Rightarrow> 'a list \<Rightarrow> 'a \<Rightarrow> 'a" where
  "fold_min ops [] m = m"
| "fold_min ops (x # xs) m = fold_min ops xs (std_min ops m x)"

fun fold_max :: "'a arith \<Rightarrow> 'a list \<Rightarrow> 'a \<Rightarrow> 'a" where
  "fold_max ops [] m = m"
| "fold_max ops (x # xs) m = fold_max ops xs (std_max ops m x)"

definition min_of :: "'a arith \<Rightarrow> 'a list \<Rightarrow> 'a" where
  "min_of ops xs = (case xs of [] \<Rightarrow> T_zero ops | x # ys \<Rightarrow> fold_min ops ys x)"

definition max_of :: "'a arith \<Rightarrow> 'a list \<Rightarrow> 'a" where
  "max_of ops xs = (case xs of [] \<Rightarrow> T_zero ops | x # ys \<Rightarrow> fold_max ops ys x)"

fun value_of :: "'a arith \<Rightarrow> getter \<Rightarrow> 'a list \<Rightarrow> 'a" where
  "value_of ops Mean xs = mean_of ops xs"
| "value_of ops Variance xs = variance_of ops xs"
| "value_of ops Min xs = min_of ops xs"
| "value_of ops Max xs = max_of ops xs"


text \<open>The operations of \<open>T = int\<close>, for running the model on numbers.\<close>

definition int_arith :: "int arith" where
  "int_arith =
     \<lparr>T_zero = 0, T_add = (+), T_sub = (-), T_mul = (*), T_div = (sdiv),
      T_of_size = int, T_less = (<)\<rparr>"

section \<open>Theorems about FakeNetworkPipe\<close>

subsection \<open>Queue overflow and construction\<close>

text \<open>
  C7. A \<open>SendPacket\<close> call made while the capacity queue holds at least
  \<open>queue_length\<close> packets adds one to the drop counter and changes nothing else: both
  queues, the sent counter, the delay total and the receiver's log are as before. The
  call returns a state, never a failure.
\<close>

theorem SendPacket_full_drops:
  assumes "queue_length p \<le> length (capacity_link p)"
  shows "SendPacket buf time_now p = p\<lparr>dropped_packets := dropped_packets p + 1\<rparr>
       \<and> dropped_packets (SendPacket buf time_now p) = dropped_packets p + 1
       \<and> capacity_link (SendPacket buf time_now p) = capacity_link p
       \<and> delay_link (SendPacket buf time_now p) = delay_link p
       \<and> sent_packets (SendPacket buf time_now p) = sent_packets p
       \<and> total_packet_delay (SendPacket buf time_now p) = total_packet_delay p
       \<and> received (SendPacket buf time_now p) = received p"
  using assms by (simp add: SendPacket_def)

theorem SendPacket_full_drops_witness:
  "dropped_packets (SendPacket [1, 2] 5
      \<lparr>queue_length = 0, queue_delay_ms = 0, link_capacity_bytes_ms = 10, loss_percent = 0,
       dropped_packets = 3, sent_packets = 0, total_packet_delay = 0,
       capacity_link = [], delay_link = [], received = []\<rparr>) = 4"
  using SendPacket_full_drops [of
      "\<lparr>queue_length = 0, queue_delay_ms = 0, link_capacity_bytes_ms = 10, loss_percent = 0,
       dropped_packets = 3, sent_packets = 0, total_packet_delay = 0,
       capacity_link = [], delay_link = [], received = []\<rparr>" "[1, 2]" 5]
  by simp

lemma sdiv8_pos: "0 < (k::int) sdiv 8 \<longleftrightarrow> 8 \<le> k"
  by (auto simp: signed_divide_int_def sgn_if zero_less_mult_iff pos_imp_zdiv_pos_iff)

text \<open>
  C8, as the code has it. The assertion is on the stored quotient \<open>link_capacity_kbps / 8\<close>,
  not on \<open>link_capacity_kbps\<close>: construction fails for every \<open>link_capacity_kbps\<close> below 8
  (all the non-positive values, and 1 to 7, whose quotient is 0) and succeeds for every
  \<open>link_capacity_kbps\<close> from 8 on.
\<close>

theorem new_pipe_asserts:
  "(FakeNetworkPipe_new ql qd kbps loss = Inl AssertionFailed \<longleftrightarrow> kbps < 8)
   \<and> ((\<exists>p. FakeNetworkPipe_new ql qd kbps loss = Inr p) \<longleftrightarrow> 8 \<le> kbps)"
  by (auto simp: FakeNetworkPipe_new_def Let_def sdiv8_pos)

theorem new_pipe_asserts_witness:
  "FakeNetworkPipe_new 2 0 80 0 \<noteq> Inl AssertionFailed
   \<and> FakeNetworkPipe_new 2 0 (- 80) 0 = Inl AssertionFailed"
  using new_pipe_asserts [of 2 0 80 0] new_pipe_asserts [of 2 0 "- 80" 0]
  by simp

text \<open>
  C8 as stated fails: 7 kbps is a positive link capacity, and the constructor's assertion
  fails for it, since \<open>7 / 8 = 0\<close>.
\<close>

theorem new_pipe_positive_kbps_fails:
  "(0::int) < 7 \<and> FakeNetworkPipe_new 2 0 7 0 = Inl AssertionFailed"
  by (simp add: FakeNetworkPipe_new_def Let_def signed_divide_int_def)

subsection \<open>The loops of NetworkProcess in closed form\<close>

lemma sdiv_nonneg_eq_div: "0 \<le> (a::int) \<Longrightarrow> 0 < b \<Longrightarrow> a sdiv b = a div b"
  by (simp add: signed_divide_int_def sgn_if)

lemma capacity_delay_nonneg: "0 < (c::int) \<Longrightarrow> 0 \<le> int n sdiv c"
  by (simp add: sdiv_nonneg_eq_div pos_imp_zdiv_nonneg_iff)

lemma capacity_loop_eq:
  "capacity_loop t qd cl dl =
     (dropWhile (\<lambda>x. arrival_time x \<le> t) cl,
      dl @ map (\<lambda>x. IncrementArrivalTime x qd) (takeWhile (\<lambda>x. arrival_time x \<le> t) cl))"
  by (induction cl arbitrary: dl) simp_all

lemma delay_loop_eq:
  "delay_loop t dl p =
     p\<lparr>delay_link := dropWhile (\<lambda>x. arrival_time x \<le> t) dl,
       received := received p @
          map (\<lambda>x. (data x, data_length x)) (takeWhile (\<lambda>x. arrival_time x \<le> t) dl),
       sent_packets := sent_packets p + length (takeWhile (\<lambda>x. arrival_time x \<le> t) dl),
       total_packet_delay := total_packet_delay p +
          sum_list (map (\<lambda>x. arrival_time x - send_time x)
                      (takeWhile (\<lambda>x. arrival_time x \<le> t) dl))\<rparr>"
  by (induction dl arbitrary: p) simp_all

lemma NetworkProcess_eq:
  "NetworkProcess t p =
     p\<lparr>capacity_link := dropWhile (\<lambda>x. arrival_time x \<le> t) (capacity_link p),
       delay_link := dropWhile (\<lambda>x. arrival_time x \<le> t) (moved t p),
       received := received p @
          map (\<lambda>x. (data x, data_length x)) (takeWhile (\<lambda>x. arrival_time x \<le> t) (moved t p)),
       sent_packets := sent_packets p + length (takeWhile (\<lambda>x. arrival_time x \<le> t) (moved t p)),
       total_packet_delay := total_packet_delay p +
          sum_list (map (\<lambda>x. arrival_time x - send_time x)
                      (takeWhile (\<lambda>x. arrival_time x \<le> t) (moved t p)))\<rparr>"
  by (simp add: NetworkProcess_def capacity_loop_eq delay_loop_eq moved_def)

lemma run_idle:
  "capacity_link p = [] \<Longrightarrow> delay_link p = [] \<Longrightarrow> run (map Process ts) p = p"
  by (induction ts) (simp_all add: NetworkProcess_def)

lemma new_test_pipe:
  "8 \<le> kbps \<Longrightarrow> FakeNetworkPipe_new ql qd kbps 0 = Inr (test_pipe ql qd (kbps div 8))"
  by (simp add: FakeNetworkPipe_new_def Let_def test_pipe_def sdiv8_pos sdiv_nonneg_eq_div)

lemmas eval_pipe = test_pipe_def SendPacket_def NetworkProcess_def
  NetworkPacket_new_def IncrementArrivalTime_def signed_divide_int_def Let_def

subsection \<open>The arrival time SendPacket assigns\<close>

text \<open>
  What the code computes when it enqueues: the link delay is added to the arrival time of
  the tail of the capacity queue whenever that queue is not empty, and to the clock
  reading only when it is empty. This is \<open>max now tail\<close> plus the link delay as long
  as the tail has not yet arrived.
\<close>

lemma SendPacket_enqueues:
  assumes "length (capacity_link p) < queue_length p"
  shows "capacity_link (SendPacket buf now p) =
           capacity_link p @
             [NetworkPacket_new buf now
                ((if capacity_link p = [] then now
                  else arrival_time (last (capacity_link p)))
                 + int (length buf) sdiv link_capacity_bytes_ms p)]"
  using assms by (simp add: SendPacket_def Let_def)

lemma SendPacket_start_is_max:
  assumes "length (capacity_link p) < queue_length p"
    and "capacity_link p \<noteq> []"
    and "now \<le> arrival_time (last (capacity_link p))"
  shows "arrival_time (last (capacity_link (SendPacket buf now p))) =
           max now (arrival_time (last (capacity_link p)))
             + int (length buf) sdiv link_capacity_bytes_ms p"
  using assms by (simp add: SendPacket_def Let_def NetworkPacket_new_def)

text \<open>
  C2. The claim gives the enqueued packet the arrival time
  \<open>max now tail + length / capacity\<close>. The code does not take the maximum. At 80 kbps
  (10 bytes per ms), queue bound 2: a 100-byte packet sent at 0 gets arrival time 10; a
  second 100-byte packet sent at 100, with no \<open>NetworkProcess\<close> in between, finds the
  first still queued and gets arrival time \<open>10 + 10 = 20\<close>, where the claim says
  \<open>max 100 10 + 10 = 110\<close>.
\<close>

theorem start_time_behind_clock:
  "FakeNetworkPipe_new 2 0 80 0 = Inr (test_pipe 2 0 10)
   \<and> length (capacity_link (SendPacket (replicate 100 0) 0 (test_pipe 2 0 10))) < 2
   \<and> arrival_time (last (capacity_link (SendPacket (replicate 100 0) 0 (test_pipe 2 0 10)))) = 10
   \<and> arrival_time (last (capacity_link
        (SendPacket (replicate 100 0) 100 (SendPacket (replicate 100 0) 0 (test_pipe 2 0 10)))))
      = 20
   \<and> max 100 (arrival_time (last (capacity_link
        (SendPacket (replicate 100 0) 0 (test_pipe 2 0 10))))) + 100 div 10 = (110 :: int)"
  by (simp add: new_test_pipe [of 80, simplified] eval_pipe)

text \<open>
  C3. The claim says that every packet held by the pipe has an arrival time not before
  its send time. At 8 kbps (1 byte per ms), queue bound 2, two 1-byte packets sent at
  clock readings 0 and 50 are both in the capacity queue; the second has send time 50
  and arrival time 2. A \<open>NetworkProcess\<close> call at 50 delivers both and adds
  \<open>(1 - 0) + (2 - 50)\<close> to the delay total, so that \<open>AverageDelay\<close> is negative.
\<close>

theorem arrival_before_send:
  "FakeNetworkPipe_new 2 0 8 0 = Inr (test_pipe 2 0 1)
   \<and> sorted (map call_time [Send [0] 0, Send [0] 50, Process 50])
   \<and> map (\<lambda>x. (send_time x, arrival_time x))
        (capacity_link (run [Send [0] 0, Send [0] 50] (test_pipe 2 0 1))) = [(0, 1), (50, 2)]
   \<and> (\<exists>x \<in> set (capacity_link (run [Send [0] 0, Send [0] 50] (test_pipe 2 0 1))).
         arrival_time x < send_time x)
   \<and> total_packet_delay (run [Send [0] 0, Send [0] 50, Process 50] (test_pipe 2 0 1)) = - 47
   \<and> AverageDelay (run [Send [0] 0, Send [0] 50, Process 50] (test_pipe 2 0 1)) = - 23"
  by (simp add: new_test_pipe [of 8, simplified] eval_pipe AverageDelay_def to_cpp_int_def)

subsection \<open>Order of the queues\<close>

lemma pipe_inv_new:
  "FakeNetworkPipe_new ql qd kbps loss = Inr p \<Longrightarrow> pipe_inv t p"
  by (auto simp: FakeNetworkPipe_new_def Let_def pipe_inv_def split: if_splits)

lemma pipe_inv_SendPacket:
  assumes "pipe_inv t p" and "t \<le> now"
  shows "pipe_inv now (SendPacket buf now p)"
proof (cases "queue_length p \<le> length (capacity_link p)")
  case True
  with assms show ?thesis
    by (auto simp: SendPacket_def pipe_inv_def)
next
  case False
  from assms have c: "0 < link_capacity_bytes_ms p"
    by (simp add: pipe_inv_def)
  have d: "0 \<le> int (length buf) sdiv link_capacity_bytes_ms p"
    using c by (rule capacity_delay_nonneg)
  show ?thesis
  proof (cases "capacity_link p = []")
    case True
    with False assms d show ?thesis
      by (fastforce simp: SendPacket_def pipe_inv_def NetworkPacket_new_def)
  next
    case ne: False
    have last_max: "\<forall>y \<in> set (capacity_link p).
        arrival_time y \<le> arrival_time (last (capacity_link p))"
    proof -
      from ne obtain ys z where e: "capacity_link p = ys @ [z]"
        by (metis append_butlast_last_id)
      from assms have "sorted (map arrival_time (capacity_link p))"
        by (simp add: pipe_inv_def)
      with e show ?thesis by (auto simp: sorted_append)
    qed
    have last_in: "last (capacity_link p) \<in> set (capacity_link p)"
      using ne by simp
    let ?L = "arrival_time (last (capacity_link p))"
    let ?d = "int (length buf) sdiv link_capacity_bytes_ms p"
    let ?pkt = "NetworkPacket_new buf now (?L + ?d)"
    have sp: "SendPacket buf now p = p\<lparr>capacity_link := capacity_link p @ [?pkt]\<rparr>"
      using False ne by (simp add: SendPacket_def Let_def)
    have a: "arrival_time ?pkt = ?L + ?d"
      by (simp add: NetworkPacket_new_def)
    have s1: "sorted (map arrival_time (capacity_link p @ [?pkt]))"
      using assms(1) last_max d by (fastforce simp: pipe_inv_def sorted_append a)
    have s2: "sorted (map arrival_time (delay_link p))"
      using assms(1) by (simp add: pipe_inv_def)
    have b: "\<forall>x \<in> set (delay_link p).
        arrival_time x \<le> now + queue_delay_ms p \<and>
        (\<forall>y \<in> set (capacity_link p @ [?pkt]).
           arrival_time x \<le> arrival_time y + queue_delay_ms p)"
    proof
      fix x assume x: "x \<in> set (delay_link p)"
      from assms(1) x have x1: "arrival_time x \<le> t + queue_delay_ms p"
        and x2: "\<forall>y \<in> set (capacity_link p). arrival_time x \<le> arrival_time y + queue_delay_ms p"
        by (simp_all add: pipe_inv_def)
      from x2 last_in have "arrival_time x \<le> ?L + queue_delay_ms p" by blast
      with d have "arrival_time x \<le> arrival_time ?pkt + queue_delay_ms p"
        unfolding a by linarith
      with x1 x2 assms(2)
      show "arrival_time x \<le> now + queue_delay_ms p \<and>
        (\<forall>y \<in> set (capacity_link p @ [?pkt]).
           arrival_time x \<le> arrival_time y + queue_delay_ms p)"
        by auto
    qed
    show ?thesis
      unfolding sp using c s1 s2 b by (simp add: pipe_inv_def)
  qed
qed

lemma sorted_map_dropWhile: "sorted (map f xs) \<Longrightarrow> sorted (map f (dropWhile P xs))"
  by (induction xs) auto

lemma sorted_map_takeWhile: "sorted (map f xs) \<Longrightarrow> sorted (map f (takeWhile P xs))"
  by (induction xs) (auto dest: set_takeWhileD)

lemma sorted_map_split:
  assumes "sorted (map f xs)" and "x \<in> set (takeWhile P xs)" and "y \<in> set (dropWhile P xs)"
  shows "f x \<le> f y"
proof -
  have "sorted (map f (takeWhile P xs @ dropWhile P xs))"
    using assms(1) by simp
  with assms(2,3) show ?thesis
    unfolding map_append sorted_append by auto
qed

lemma pipe_inv_NetworkProcess:
  assumes "pipe_inv t p" and "t \<le> now"
  shows "pipe_inv now (NetworkProcess now p)"
proof -
  let ?P = "\<lambda>x. arrival_time x \<le> now"
  let ?D = "queue_delay_ms p"
  let ?tk = "takeWhile ?P (capacity_link p)"
  let ?cl = "dropWhile ?P (capacity_link p)"
  from assms(1) have c: "0 < link_capacity_bytes_ms p"
    and sc: "sorted (map arrival_time (capacity_link p))"
    and sd: "sorted (map arrival_time (delay_link p))"
    and bd: "\<forall>x \<in> set (delay_link p). arrival_time x \<le> t + ?D \<and>
              (\<forall>y \<in> set (capacity_link p). arrival_time x \<le> arrival_time y + ?D)"
    by (simp_all add: pipe_inv_def)
  have mv: "moved now p = delay_link p @ map (\<lambda>x. IncrementArrivalTime x ?D) ?tk"
    by (simp add: moved_def)
  have inc: "map arrival_time (map (\<lambda>x. IncrementArrivalTime x ?D) ?tk)
             = map (\<lambda>x. arrival_time x + ?D) ?tk"
    by (simp add: IncrementArrivalTime_def)
  have "sorted (map arrival_time ?tk)"
    using sc by (rule sorted_map_takeWhile)
  then have "sorted (map (\<lambda>x. arrival_time x + ?D) ?tk)"
    by (induction ?tk) (auto simp: sorted_wrt_map)
  then have s_inc: "sorted (map arrival_time (map (\<lambda>x. IncrementArrivalTime x ?D) ?tk))"
    by (simp only: inc)
  have cross: "\<forall>x \<in> set (delay_link p). \<forall>z \<in> set ?tk. arrival_time x \<le> arrival_time z + ?D"
    using bd by (blast dest: set_takeWhileD)
  have s_mv: "sorted (map arrival_time (moved now p))"
    unfolding mv map_append sorted_append
    using sd s_inc cross by (auto simp: IncrementArrivalTime_def)
  have s1: "sorted (map arrival_time ?cl)"
    using sc by (rule sorted_map_dropWhile)
  have s2: "sorted (map arrival_time (dropWhile ?P (moved now p)))"
    using s_mv by (rule sorted_map_dropWhile)
  have b: "\<forall>x \<in> set (moved now p). arrival_time x \<le> now + ?D \<and>
              (\<forall>y \<in> set ?cl. arrival_time x \<le> arrival_time y + ?D)"
  proof
    fix x assume "x \<in> set (moved now p)"
    then consider (old) "x \<in> set (delay_link p)"
      | (new) z where "z \<in> set ?tk" and "x = IncrementArrivalTime z ?D"
      unfolding mv by auto
    then show "arrival_time x \<le> now + ?D \<and>
              (\<forall>y \<in> set ?cl. arrival_time x \<le> arrival_time y + ?D)"
    proof cases
      case old
      with bd assms(2) show ?thesis
        by (fastforce dest: set_dropWhileD)
    next
      case new
      from new(1) have "arrival_time z \<le> now"
        by (blast dest: set_takeWhileD)
      moreover have "\<forall>y \<in> set ?cl. arrival_time z \<le> arrival_time y"
        using sorted_map_split [OF sc new(1)] by blast
      ultimately show ?thesis
        using new(2) by (auto simp: IncrementArrivalTime_def)
    qed
  qed
  have b': "\<forall>x \<in> set (dropWhile ?P (moved now p)). arrival_time x \<le> now + ?D \<and>
              (\<forall>y \<in> set ?cl. arrival_time x \<le> arrival_time y + ?D)"
    using b by (blast dest: set_dropWhileD)
  show ?thesis
    using c s1 s2 b' by (simp add: NetworkProcess_eq pipe_inv_def)
qed

lemma pipe_inv_run:
  "pipe_inv t p \<Longrightarrow> sorted (t # map call_time cs) \<Longrightarrow> \<exists>t'. pipe_inv t' (run cs p)"
proof (induction cs arbitrary: t p)
  case Nil
  then show ?case by auto
next
  case (Cons c cs)
  from Cons.prems(2) have le: "t \<le> call_time c" and st: "sorted (call_time c # map call_time cs)"
    by simp_all
  have "pipe_inv (call_time c) (apply_call c p)"
    using Cons.prems(1) le
    by (cases c) (simp_all add: pipe_inv_SendPacket pipe_inv_NetworkProcess)
  from Cons.IH [OF this st] show ?case by simp
qed

lemma SendPacket_fifo:
  "(capacity_link (SendPacket buf t p) = capacity_link p
      \<or> (\<exists>pkt. capacity_link (SendPacket buf t p) = capacity_link p @ [pkt]))
   \<and> delay_link (SendPacket buf t p) = delay_link p"
  by (simp add: SendPacket_def Let_def)

lemma NetworkProcess_fifo:
  "\<exists>k j. capacity_link (NetworkProcess t p) = drop k (capacity_link p)
         \<and> delay_link (NetworkProcess t p) =
             drop j (delay_link p @
                     map (\<lambda>x. IncrementArrivalTime x (queue_delay_ms p))
                       (take k (capacity_link p)))"
proof -
  let ?P = "\<lambda>x. arrival_time x \<le> t"
  let ?k = "length (takeWhile ?P (capacity_link p))"
  let ?j = "length (takeWhile ?P (moved t p))"
  have "capacity_link (NetworkProcess t p) = drop ?k (capacity_link p)"
    by (simp add: NetworkProcess_eq dropWhile_eq_drop)
  moreover have "delay_link (NetworkProcess t p) = drop ?j (moved t p)"
    by (simp add: NetworkProcess_eq dropWhile_eq_drop)
  moreover have "take ?k (capacity_link p) = takeWhile ?P (capacity_link p)"
    by (rule takeWhile_eq_take [symmetric])
  then have "moved t p = delay_link p @
      map (\<lambda>x. IncrementArrivalTime x (queue_delay_ms p)) (take ?k (capacity_link p))"
    by (simp only: moved_def)
  ultimately show ?thesis by metis
qed

text \<open>
  C5. Start from a pipe the constructor returned and make any calls of \<open>SendPacket\<close> and
  \<open>NetworkProcess\<close> with non-decreasing clock readings. Then the capacity queue and the
  delay queue are each non-decreasing in arrival time. The order comes from the way the
  queues are built: \<open>SendPacket\<close> leaves the capacity queue as it is or appends one
  packet at its back and does not touch the delay queue; \<open>NetworkProcess\<close> removes some
  \<open>k\<close> packets from the front of the capacity queue, appends them in the same order to
  the back of the delay queue, and removes some \<open>j\<close> packets from the front of that.
\<close>

theorem queues_nondecreasing:
  assumes "FakeNetworkPipe_new ql qd kbps loss = Inr p0"
    and "sorted (map call_time cs)"
  shows "sorted (map arrival_time (capacity_link (run cs p0)))
       \<and> sorted (map arrival_time (delay_link (run cs p0)))
       \<and> (capacity_link (SendPacket buf t (run cs p0)) = capacity_link (run cs p0)
            \<or> (\<exists>pkt. capacity_link (SendPacket buf t (run cs p0))
                        = capacity_link (run cs p0) @ [pkt]))
       \<and> delay_link (SendPacket buf t (run cs p0)) = delay_link (run cs p0)
       \<and> (\<exists>k j. capacity_link (NetworkProcess t (run cs p0))
                    = drop k (capacity_link (run cs p0))
                 \<and> delay_link (NetworkProcess t (run cs p0)) =
                     drop j (delay_link (run cs p0) @
                             map (\<lambda>x. IncrementArrivalTime x (queue_delay_ms (run cs p0)))
                               (take k (capacity_link (run cs p0)))))"
proof -
  obtain t' where t': "sorted (t' # map call_time cs)"
  proof (cases cs)
    case Nil
    then show ?thesis using that [of 0] by simp
  next
    case (Cons c cs')
    then show ?thesis using that [of "call_time c"] assms(2) by simp
  qed
  from pipe_inv_run [OF pipe_inv_new [OF assms(1)] t']
  have "sorted (map arrival_time (capacity_link (run cs p0)))"
    and "sorted (map arrival_time (delay_link (run cs p0)))"
    by (auto simp: pipe_inv_def)
  with SendPacket_fifo [of buf t "run cs p0"] NetworkProcess_fifo [of t "run cs p0"]
  show ?thesis by blast
qed

theorem queues_nondecreasing_witness:
  "FakeNetworkPipe_new 2 20 80 0 = Inr (test_pipe 2 20 10)
   \<and> sorted (map call_time [Send (replicate 100 0) 0, Send (replicate 50 0) 3, Process 12,
                             Send (replicate 100 0) 12])
   \<and> sorted (map arrival_time (capacity_link
        (run [Send (replicate 100 0) 0, Send (replicate 50 0) 3, Process 12,
              Send (replicate 100 0) 12] (test_pipe 2 20 10))))
   \<and> sorted (map arrival_time (delay_link
        (run [Send (replicate 100 0) 0, Send (replicate 50 0) 3, Process 12,
              Send (replicate 100 0) 12] (test_pipe 2 20 10))))"
  using queues_nondecreasing [of 2 20 80 0 "test_pipe 2 20 10"
      "[Send (replicate 100 0) 0, Send (replicate 50 0) 3, Process 12,
        Send (replicate 100 0) 12]"]
  by (simp add: new_test_pipe [of 80, simplified])

subsection \<open>PercentageLoss\<close>

lemma sent_received_NetworkProcess:
  "sent_packets p = length (received p) \<Longrightarrow>
   sent_packets (NetworkProcess t p) = length (received (NetworkProcess t p))"
  by (simp add: NetworkProcess_eq)

lemma sent_received_SendPacket:
  "sent_packets p = length (received p) \<Longrightarrow>
   sent_packets (SendPacket buf t p) = length (received (SendPacket buf t p))"
  by (simp add: SendPacket_def Let_def)

lemma sent_received_run:
  "sent_packets p = length (received p) \<Longrightarrow>
   sent_packets (run cs p) = length (received (run cs p))"
proof (induction cs arbitrary: p)
  case Nil
  then show ?case by simp
next
  case (Cons c cs)
  have "sent_packets (apply_call c p) = length (received (apply_call c p))"
    using Cons.prems
    by (cases c) (simp_all add: sent_received_SendPacket sent_received_NetworkProcess)
  then show ?case using Cons.IH by simp
qed

text \<open>
  C6. In every state reached from a constructed pipe by calls of \<open>SendPacket\<close> and
  \<open>NetworkProcess\<close>, the sent counter is the number of packets handed to the receiver;
  if at least one packet has been delivered, \<open>PercentageLoss\<close> is
  \<open>dropped / (sent + dropped)\<close>; and if the sent counter is 0, \<open>PercentageLoss\<close> is 0,
  whatever the drop counter is.
\<close>

theorem PercentageLoss_reachable:
  assumes "FakeNetworkPipe_new ql qd kbps loss = Inr p0"
  shows "sent_packets (run cs p0) = length (received (run cs p0))
       \<and> (received (run cs p0) \<noteq> [] \<longrightarrow>
            PercentageLoss (run cs p0) =
              real (dropped_packets (run cs p0)) /
              real (sent_packets (run cs p0) + dropped_packets (run cs p0)))
       \<and> (sent_packets (run cs p0) = 0 \<longrightarrow> PercentageLoss (run cs p0) = 0)"
proof -
  from assms have "sent_packets p0 = length (received p0)"
    by (auto simp: FakeNetworkPipe_new_def Let_def split: if_splits)
  then have "sent_packets (run cs p0) = length (received (run cs p0))"
    by (rule sent_received_run)
  then show ?thesis by (simp add: PercentageLoss_def)
qed

theorem PercentageLoss_reachable_witness:
  "FakeNetworkPipe_new 1 0 80 0 = Inr (test_pipe 1 0 10)
   \<and> received (run [Send [7] 0, Send [8] 0, Process 5] (test_pipe 1 0 10)) \<noteq> []
   \<and> PercentageLoss (run [Send [7] 0, Send [8] 0, Process 5] (test_pipe 1 0 10)) = 1 / 2
   \<and> sent_packets (run [Send [7] 0, Send [8] 0] (test_pipe 1 0 10)) = 0
   \<and> PercentageLoss (run [Send [7] 0, Send [8] 0] (test_pipe 1 0 10)) = 0"
  using PercentageLoss_reachable [of 1 0 80 0 "test_pipe 1 0 10" "[Send [7] 0, Send [8] 0, Process 5]"]
    PercentageLoss_reachable [of 1 0 80 0 "test_pipe 1 0 10" "[Send [7] 0, Send [8] 0]"]
  by (simp add: new_test_pipe [of 80, simplified] eval_pipe PercentageLoss_def)

lemma run_sends:
  assumes "length (capacity_link p) \<le> queue_length p"
  shows "length (capacity_link (run (sends pkts) p))
           = min (queue_length p) (length (capacity_link p) + length pkts)
       \<and> dropped_packets (run (sends pkts) p)
           = dropped_packets p + (length (capacity_link p) + length pkts - queue_length p)
       \<and> sent_packets (run (sends pkts) p) = sent_packets p
       \<and> delay_link (run (sends pkts) p) = delay_link p
       \<and> queue_delay_ms (run (sends pkts) p) = queue_delay_ms p"
  using assms
proof (induction pkts arbitrary: p)
  case Nil
  then show ?case by (simp add: sends_def)
next
  case (Cons a pkts)
  obtain buf t where a: "a = (buf, t)" by (cases a)
  let ?q = "SendPacket buf t p"
  have r: "run (sends (a # pkts)) p = run (sends pkts) ?q"
    by (simp add: sends_def a)
  show ?case
  proof (cases "queue_length p \<le> length (capacity_link p)")
    case True
    with Cons.prems have q: "?q = p\<lparr>dropped_packets := dropped_packets p + 1\<rparr>"
      by (simp add: SendPacket_def)
    have "length (capacity_link ?q) \<le> queue_length ?q"
      using Cons.prems by (simp add: q)
    from Cons.IH [OF this] True Cons.prems show ?thesis
      unfolding r by (simp add: q)
  next
    case False
    then have q: "length (capacity_link ?q) = Suc (length (capacity_link p))
        \<and> queue_length ?q = queue_length p \<and> dropped_packets ?q = dropped_packets p
        \<and> sent_packets ?q = sent_packets p \<and> delay_link ?q = delay_link p
        \<and> queue_delay_ms ?q = queue_delay_ms p"
      by (simp add: SendPacket_def Let_def)
    with False have "length (capacity_link ?q) \<le> queue_length ?q"
      by simp
    from Cons.IH [OF this] False q show ?thesis
      unfolding r by simp
  qed
qed

lemma run_append: "run (cs @ ds) p = run ds (run cs p)"
  by (induction cs arbitrary: p) simp_all

lemma length_takeWhile_dropWhile:
  "length (takeWhile P xs) + length (dropWhile P xs) = length xs"
  by (induction xs) simp_all

lemma NetworkProcess_conserves:
  "dropped_packets (NetworkProcess t p) = dropped_packets p
   \<and> queue_delay_ms (NetworkProcess t p) = queue_delay_ms p
   \<and> sent_packets (NetworkProcess t p) + length (capacity_link (NetworkProcess t p))
       + length (delay_link (NetworkProcess t p))
     = sent_packets p + length (capacity_link p) + length (delay_link p)"
proof -
  let ?P = "\<lambda>x. arrival_time x \<le> t"
  have m: "length (moved t p) = length (delay_link p) + length (takeWhile ?P (capacity_link p))"
    by (simp add: moved_def)
  have a: "length (takeWhile ?P (moved t p)) + length (dropWhile ?P (moved t p))
             = length (moved t p)"
    by (rule length_takeWhile_dropWhile)
  have b: "length (takeWhile ?P (capacity_link p)) + length (dropWhile ?P (capacity_link p))
             = length (capacity_link p)"
    by (rule length_takeWhile_dropWhile)
  show ?thesis
    using m a b by (simp add: NetworkProcess_eq)
qed

lemma run_process_conserves:
  "dropped_packets (run (map Process ts) p) = dropped_packets p
   \<and> queue_delay_ms (run (map Process ts) p) = queue_delay_ms p
   \<and> sent_packets (run (map Process ts) p) + length (capacity_link (run (map Process ts) p))
       + length (delay_link (run (map Process ts) p))
     = sent_packets p + length (capacity_link p) + length (delay_link p)"
proof (induction ts arbitrary: p)
  case Nil
  then show ?case by simp
next
  case (Cons t ts)
  from Cons.IH [of "NetworkProcess t p"] NetworkProcess_conserves [of t p]
  show ?case by simp
qed

text \<open>
  Every queued packet is due at the reading \<open>B\<close>. A \<open>NetworkProcess\<close> call at any
  reading keeps that, and a call at \<open>B\<close> empties both queues.
\<close>

lemma NetworkProcess_due:
  assumes "\<forall>x \<in> set (capacity_link p).
             arrival_time x \<le> B \<and> arrival_time x + queue_delay_ms p \<le> B"
    and "\<forall>x \<in> set (delay_link p). arrival_time x \<le> B"
  shows "(\<forall>x \<in> set (capacity_link (NetworkProcess t p)).
             arrival_time x \<le> B \<and> arrival_time x + queue_delay_ms (NetworkProcess t p) \<le> B)
       \<and> (\<forall>x \<in> set (delay_link (NetworkProcess t p)). arrival_time x \<le> B)"
proof -
  let ?P = "\<lambda>x. arrival_time x \<le> t"
  have "\<forall>x \<in> set (moved t p). arrival_time x \<le> B"
    using assms by (auto simp: moved_def IncrementArrivalTime_def dest: set_takeWhileD)
  then have "\<forall>x \<in> set (dropWhile ?P (moved t p)). arrival_time x \<le> B"
    by (blast dest: set_dropWhileD)
  moreover have "\<forall>x \<in> set (dropWhile ?P (capacity_link p)).
      arrival_time x \<le> B \<and> arrival_time x + queue_delay_ms p \<le> B"
    using assms(1) by (blast dest: set_dropWhileD)
  ultimately show ?thesis
    by (simp add: NetworkProcess_eq)
qed

lemma NetworkProcess_empties:
  assumes "\<forall>x \<in> set (capacity_link p).
             arrival_time x \<le> B \<and> arrival_time x + queue_delay_ms p \<le> B"
    and "\<forall>x \<in> set (delay_link p). arrival_time x \<le> B"
  shows "capacity_link (NetworkProcess B p) = [] \<and> delay_link (NetworkProcess B p) = []"
proof -
  let ?P = "\<lambda>x. arrival_time x \<le> B"
  have tk: "takeWhile ?P (capacity_link p) = capacity_link p"
    using assms(1) by simp
  have "\<forall>x \<in> set (moved B p). arrival_time x \<le> B"
    using assms by (auto simp: moved_def IncrementArrivalTime_def dest: set_takeWhileD)
  then have "dropWhile ?P (moved B p) = []"
    by simp
  moreover have "dropWhile ?P (capacity_link p) = []"
    using assms(1) by simp
  ultimately show ?thesis
    by (simp add: NetworkProcess_eq)
qed

lemma run_process_late:
  assumes "\<forall>x \<in> set (capacity_link p).
             arrival_time x \<le> B \<and> arrival_time x + queue_delay_ms p \<le> B"
    and "\<forall>x \<in> set (delay_link p). arrival_time x \<le> B"
    and "B \<in> set ts"
  shows "capacity_link (run (map Process ts) p) = []
       \<and> delay_link (run (map Process ts) p) = []"
  using assms
proof (induction ts arbitrary: p)
  case Nil
  then show ?case by simp
next
  case (Cons t ts)
  show ?case
  proof (cases "t = B")
    case True
    from NetworkProcess_empties [OF Cons.prems(1,2)]
    have e: "capacity_link (NetworkProcess B p) = []" "delay_link (NetworkProcess B p) = []"
      by simp_all
    then have "run (map Process ts) (NetworkProcess B p) = NetworkProcess B p"
      by (rule run_idle)
    with e True show ?thesis by simp
  next
    case False
    with Cons.prems(3) have "B \<in> set ts" by simp
    from Cons.IH [OF _ _ this, of "NetworkProcess t p"] NetworkProcess_due [OF Cons.prems(1,2), of t]
    show ?thesis by simp
  qed
qed

text \<open>
  C1, as the code has it. Queue bound \<open>K\<close>, and \<open>K + 1\<close> packets sent with no
  \<open>NetworkProcess\<close> call in between: exactly one packet is dropped, and it is the last one
  (no drop after the first \<open>K\<close>); \<open>K\<close> packets are queued and none is delivered, so
  \<open>PercentageLoss\<close> asked right then returns 0. After any \<open>NetworkProcess\<close> calls that
  follow (and no further \<open>SendPacket\<close>), with \<open>n\<close> of the \<open>K\<close> queued packets delivered,
  the drop counter is still 1 and \<open>PercentageLoss\<close> returns 0 if \<open>n = 0\<close> and
  \<open>1 / (n + 1)\<close> otherwise. So it returns \<open>1 / (K + 1)\<close> exactly when \<open>K \<ge> 1\<close> and all
  \<open>K\<close> queued packets have been delivered; and they all have been once one of the calls
  was at a reading \<open>t\<close> with \<open>arrival_time + max 0 D \<le> t\<close> for every queued packet.
\<close>

theorem overflow_drops_one:
  assumes "FakeNetworkPipe_new K D kbps loss = Inr p0"
    and "length pkts = K + 1"
  shows "dropped_packets (run (sends pkts) p0) = 1
       \<and> dropped_packets (run (sends (butlast pkts)) p0) = 0
       \<and> length (capacity_link (run (sends pkts) p0)) = K
       \<and> sent_packets (run (sends pkts) p0) = 0
       \<and> PercentageLoss (run (sends pkts) p0) = 0
       \<and> dropped_packets (run (map Process ts) (run (sends pkts) p0)) = 1
       \<and> sent_packets (run (map Process ts) (run (sends pkts) p0))
           = length (received (run (map Process ts) (run (sends pkts) p0)))
       \<and> sent_packets (run (map Process ts) (run (sends pkts) p0))
           + length (capacity_link (run (map Process ts) (run (sends pkts) p0)))
           + length (delay_link (run (map Process ts) (run (sends pkts) p0))) = K
       \<and> PercentageLoss (run (map Process ts) (run (sends pkts) p0))
           = (if sent_packets (run (map Process ts) (run (sends pkts) p0)) = 0 then 0
              else 1 / real (sent_packets (run (map Process ts) (run (sends pkts) p0)) + 1))
       \<and> (PercentageLoss (run (map Process ts) (run (sends pkts) p0)) = 1 / real (K + 1)
            \<longleftrightarrow> 0 < K \<and> sent_packets (run (map Process ts) (run (sends pkts) p0)) = K)
       \<and> ((\<exists>t \<in> set ts. \<forall>x \<in> set (capacity_link (run (sends pkts) p0)).
                             arrival_time x + max 0 D \<le> t) \<longrightarrow>
            sent_packets (run (map Process ts) (run (sends pkts) p0)) = K)"
proof -
  let ?p = "run (sends pkts) p0"
  let ?r = "run (map Process ts) ?p"
  from assms(1) have p0: "capacity_link p0 = []" "delay_link p0 = []" "queue_length p0 = K"
    "dropped_packets p0 = 0" "sent_packets p0 = 0" "queue_delay_ms p0 = D" "received p0 = []"
    by (auto simp: FakeNetworkPipe_new_def Let_def split: if_splits)
  have le: "length (capacity_link p0) \<le> queue_length p0"
    by (simp add: p0)
  from run_sends [OF le, of pkts] assms(2)
  have a: "length (capacity_link ?p) = K" "dropped_packets ?p = 1" "sent_packets ?p = 0"
    "delay_link ?p = []" "queue_delay_ms ?p = D"
    by (simp_all add: p0)
  from run_sends [OF le, of "butlast pkts"] assms(2)
  have b: "dropped_packets (run (sends (butlast pkts)) p0) = 0"
    by (simp add: p0)
  have c: "PercentageLoss ?p = 0"
    by (simp add: PercentageLoss_def a)
  from run_process_conserves [of ts ?p]
  have d: "dropped_packets ?r = 1" "queue_delay_ms ?r = D"
    and e: "sent_packets ?r + length (capacity_link ?r) + length (delay_link ?r) = K"
    by (simp_all add: a)
  have "sent_packets (run (sends pkts @ map Process ts) p0)
          = length (received (run (sends pkts @ map Process ts) p0))"
    by (rule sent_received_run) (simp add: p0)
  then have f: "sent_packets ?r = length (received ?r)"
    by (simp add: run_append)
  have g: "PercentageLoss ?r = (if sent_packets ?r = 0 then 0 else 1 / real (sent_packets ?r + 1))"
    by (simp add: PercentageLoss_def d)
  have h: "PercentageLoss ?r = 1 / real (K + 1) \<longleftrightarrow> 0 < K \<and> sent_packets ?r = K"
  proof (cases "sent_packets ?r = 0")
    case True
    have "(0::real) < 1 / real (K + 1)" by simp
    with True g show ?thesis by auto
  next
    case False
    then have "PercentageLoss ?r = 1 / real (sent_packets ?r + 1)"
      using g by simp
    moreover have "1 / real (sent_packets ?r + 1) = 1 / real (K + 1) \<longleftrightarrow> sent_packets ?r = K"
      by (simp add: field_simps)
    ultimately show ?thesis using False by auto
  qed
  have i: "sent_packets ?r = K"
    if "\<exists>t \<in> set ts. \<forall>x \<in> set (capacity_link ?p). arrival_time x + max 0 D \<le> t"
  proof -
    from that obtain B where B: "B \<in> set ts"
      and due: "\<forall>x \<in> set (capacity_link ?p). arrival_time x + max 0 D \<le> B"
      by blast
    from due have "\<forall>x \<in> set (capacity_link ?p).
        arrival_time x \<le> B \<and> arrival_time x + queue_delay_ms ?p \<le> B"
      by (auto simp: a)
    moreover have "\<forall>x \<in> set (delay_link ?p). arrival_time x \<le> B"
      by (simp add: a)
    ultimately have "capacity_link ?r = [] \<and> delay_link ?r = []"
      using B by (rule run_process_late)
    with e show ?thesis by simp
  qed
  from a b c d e f g h i show ?thesis by blast
qed

theorem overflow_drops_one_witness:
  "FakeNetworkPipe_new 2 0 80 0 = Inr (test_pipe 2 0 10)
   \<and> length [(replicate 100 0, 0), (replicate 100 0, 0), (replicate 100 0, 0 :: int)] = 2 + 1
   \<and> dropped_packets
        (run (sends [(replicate 100 0, 0), (replicate 100 0, 0), (replicate 100 0, 0)])
           (test_pipe 2 0 10)) = 1
   \<and> PercentageLoss
        (run (sends [(replicate 100 0, 0), (replicate 100 0, 0), (replicate 100 0, 0)])
           (test_pipe 2 0 10)) = 0
   \<and> PercentageLoss
        (run (map Process [10])
           (run (sends [(replicate 100 0, 0), (replicate 100 0, 0), (replicate 100 0, 0)])
              (test_pipe 2 0 10))) = 1 / 2
   \<and> (\<exists>t \<in> set [10, 20 :: int].
         \<forall>x \<in> set (capacity_link
                 (run (sends [(replicate 100 0, 0), (replicate 100 0, 0), (replicate 100 0, 0)])
                    (test_pipe 2 0 10))).
           arrival_time x + max 0 0 \<le> t)
   \<and> PercentageLoss
        (run (map Process [10, 20])
           (run (sends [(replicate 100 0, 0), (replicate 100 0, 0), (replicate 100 0, 0)])
              (test_pipe 2 0 10))) = 1 / 3"
  using overflow_drops_one [of 2 0 80 0 "test_pipe 2 0 10"
      "[(replicate 100 0, 0), (replicate 100 0, 0), (replicate 100 0, 0)]" "[10, 20]"]
    overflow_drops_one [of 2 0 80 0 "test_pipe 2 0 10"
      "[(replicate 100 0, 0), (replicate 100 0, 0), (replicate 100 0, 0)]" "[10]"]
  by (simp add: new_test_pipe [of 80, simplified] eval_pipe sends_def PercentageLoss_def)

text \<open>
  C1 as stated fails in the scenario the specification gives: 80 kbps, queue bound 2, a
  100-byte packet sent three times with no \<open>NetworkProcess\<close> call. One packet is dropped,
  and \<open>PercentageLoss\<close> is 0, not 1/3.
\<close>

theorem overflow_loss_is_zero:
  "FakeNetworkPipe_new 2 0 80 0 = Inr (test_pipe 2 0 10)
   \<and> dropped_packets
        (run [Send (replicate 100 0) 0, Send (replicate 100 0) 0, Send (replicate 100 0) 0]
           (test_pipe 2 0 10)) = 1
   \<and> PercentageLoss
        (run [Send (replicate 100 0) 0, Send (replicate 100 0) 0, Send (replicate 100 0) 0]
           (test_pipe 2 0 10)) \<noteq> 1 / 3"
  by (simp add: new_test_pipe [of 80, simplified] eval_pipe PercentageLoss_def)

subsection \<open>AverageDelay of a single packet\<close>

lemma run_in_delay:
  assumes "capacity_link p = []" and "delay_link p = [x]"
    and "\<exists>t \<in> set ts. arrival_time x \<le> t"
  shows "run (map Process ts) p =
           p\<lparr>delay_link := [],
             received := received p @ [(data x, data_length x)],
             sent_packets := sent_packets p + 1,
             total_packet_delay := total_packet_delay p + (arrival_time x - send_time x)\<rparr>"
  using assms(3)
proof (induction ts)
  case Nil
  then show ?case by simp
next
  case (Cons t ts)
  show ?case
  proof (cases "arrival_time x \<le> t")
    case True
    let ?q = "p\<lparr>delay_link := [],
             received := received p @ [(data x, data_length x)],
             sent_packets := sent_packets p + 1,
             total_packet_delay := total_packet_delay p + (arrival_time x - send_time x)\<rparr>"
    have "NetworkProcess t p = ?q"
      using assms(1,2) True by (simp add: NetworkProcess_def)
    moreover have "run (map Process ts) ?q = ?q"
      using assms(1) by (simp add: run_idle)
    ultimately show ?thesis by simp
  next
    case False
    then have "NetworkProcess t p = p"
      using assms(1,2) by (simp add: NetworkProcess_def)
    moreover from False Cons.prems have "\<exists>t \<in> set ts. arrival_time x \<le> t"
      by auto
    ultimately show ?thesis using Cons.IH by simp
  qed
qed

lemma run_in_capacity:
  assumes "capacity_link p = [x]" and "delay_link p = []"
    and "\<exists>t \<in> set ts. arrival_time x + max 0 (queue_delay_ms p) \<le> t"
  shows "run (map Process ts) p =
           p\<lparr>capacity_link := [],
             received := received p @ [(data x, data_length x)],
             sent_packets := sent_packets p + 1,
             total_packet_delay :=
               total_packet_delay p + (arrival_time x + queue_delay_ms p - send_time x)\<rparr>"
  using assms(3)
proof (induction ts)
  case Nil
  then show ?case by simp
next
  case (Cons t ts)
  let ?D = "queue_delay_ms p"
  let ?y = "IncrementArrivalTime x ?D"
  let ?done = "p\<lparr>capacity_link := [],
             received := received p @ [(data x, data_length x)],
             sent_packets := sent_packets p + 1,
             total_packet_delay :=
               total_packet_delay p + (arrival_time x + ?D - send_time x)\<rparr>"
  consider (wait) "t < arrival_time x"
    | (move) "arrival_time x \<le> t" and "t < arrival_time x + ?D"
    | (deliver) "arrival_time x \<le> t" and "arrival_time x + ?D \<le> t"
    by linarith
  then show ?case
  proof cases
    case wait
    then have "NetworkProcess t p = p"
      using assms(1,2) by (simp add: NetworkProcess_def)
    moreover from wait Cons.prems
    have "\<exists>t \<in> set ts. arrival_time x + max 0 ?D \<le> t"
      by auto
    ultimately show ?thesis using Cons.IH by simp
  next
    case move
    let ?q = "p\<lparr>capacity_link := [], delay_link := [?y]\<rparr>"
    have q: "NetworkProcess t p = ?q"
      using assms(1,2) move by (simp add: NetworkProcess_def IncrementArrivalTime_def)
    from move Cons.prems have "\<exists>t \<in> set ts. arrival_time x + max 0 ?D \<le> t"
      by auto
    then obtain t' where "t' \<in> set ts" and "arrival_time x + max 0 ?D \<le> t'"
      by blast
    then have "t' \<in> set ts" and "arrival_time ?y \<le> t'"
      by (simp_all add: IncrementArrivalTime_def)
    then have "\<exists>t \<in> set ts. arrival_time ?y \<le> t"
      by blast
    from run_in_delay [of ?q ?y, OF _ _ this]
    have "run (map Process ts) ?q =
            ?q\<lparr>delay_link := [],
               received := received ?q @ [(data ?y, data_length ?y)],
               sent_packets := sent_packets ?q + 1,
               total_packet_delay :=
                 total_packet_delay ?q + (arrival_time ?y - send_time ?y)\<rparr>"
      by simp
    also have "\<dots> = ?done"
      using assms(2) by (cases p) (simp add: IncrementArrivalTime_def)
    finally have "run (map Process ts) ?q = ?done" .
    with q show ?thesis by simp
  next
    case deliver
    have "NetworkProcess t p = ?done"
      using assms(1,2) deliver by (simp add: NetworkProcess_def IncrementArrivalTime_def)
    moreover have "run (map Process ts) ?done = ?done"
      using assms(2) by (simp add: run_idle)
    ultimately show ?thesis by simp
  qed
qed

lemma run_delay_cases:
  assumes "capacity_link p = []" and "delay_link p = [x]"
  shows "run (map Process ts) p = p
       \<or> run (map Process ts) p =
           p\<lparr>delay_link := [],
             received := received p @ [(data x, data_length x)],
             sent_packets := sent_packets p + 1,
             total_packet_delay := total_packet_delay p + (arrival_time x - send_time x)\<rparr>"
proof (induction ts)
  case Nil
  then show ?case by simp
next
  case (Cons t ts)
  show ?case
  proof (cases "arrival_time x \<le> t")
    case True
    then have "\<exists>t' \<in> set (t # ts). arrival_time x \<le> t'" by simp
    from run_in_delay [OF assms this] show ?thesis by simp
  next
    case False
    then have "NetworkProcess t p = p"
      using assms by (simp add: NetworkProcess_def)
    then show ?thesis using Cons.IH by simp
  qed
qed

lemma run_capacity_cases:
  assumes "capacity_link p = [x]" and "delay_link p = []"
  shows "run (map Process ts) p = p
       \<or> run (map Process ts) p =
           p\<lparr>capacity_link := [],
             delay_link := [IncrementArrivalTime x (queue_delay_ms p)]\<rparr>
       \<or> run (map Process ts) p =
           p\<lparr>capacity_link := [],
             received := received p @ [(data x, data_length x)],
             sent_packets := sent_packets p + 1,
             total_packet_delay :=
               total_packet_delay p + (arrival_time x + queue_delay_ms p - send_time x)\<rparr>"
proof (induction ts)
  case Nil
  then show ?case by simp
next
  case (Cons t ts)
  let ?D = "queue_delay_ms p"
  let ?y = "IncrementArrivalTime x ?D"
  let ?q = "p\<lparr>capacity_link := [], delay_link := [?y]\<rparr>"
  let ?done = "p\<lparr>capacity_link := [],
             received := received p @ [(data x, data_length x)],
             sent_packets := sent_packets p + 1,
             total_packet_delay :=
               total_packet_delay p + (arrival_time x + ?D - send_time x)\<rparr>"
  consider (wait) "t < arrival_time x"
    | (move) "arrival_time x \<le> t" and "t < arrival_time x + ?D"
    | (deliver) "arrival_time x \<le> t" and "arrival_time x + ?D \<le> t"
    by linarith
  then show ?case
  proof cases
    case wait
    then have "NetworkProcess t p = p"
      using assms by (simp add: NetworkProcess_def)
    then show ?thesis using Cons.IH by simp
  next
    case move
    have q: "NetworkProcess t p = ?q"
      using assms move by (simp add: NetworkProcess_def IncrementArrivalTime_def)
    have "?q\<lparr>delay_link := [],
             received := received ?q @ [(data ?y, data_length ?y)],
             sent_packets := sent_packets ?q + 1,
             total_packet_delay :=
               total_packet_delay ?q + (arrival_time ?y - send_time ?y)\<rparr> = ?done"
      using assms(2) by (cases p) (simp add: IncrementArrivalTime_def)
    with run_delay_cases [of ?q ?y ts] q show ?thesis by auto
  next
    case deliver
    have "NetworkProcess t p = ?done"
      using assms deliver by (simp add: NetworkProcess_def IncrementArrivalTime_def)
    moreover have "run (map Process ts) ?done = ?done"
      using assms(2) by (simp add: run_idle)
    ultimately show ?thesis by simp
  qed
qed

lemma to_cpp_int_in_range:
  "- 2147483648 \<le> v \<Longrightarrow> v < 2147483648 \<Longrightarrow> to_cpp_int v = v"
  by (simp add: to_cpp_int_def)

text \<open>
  C4, as the code has it. A pipe is constructed with link capacity \<open>C\<close> kbps (the
  constructor accepts \<open>C \<ge> 8\<close>, so every positive multiple of 8) and queue delay \<open>D\<close>.
  One packet of \<open>S\<close> bytes is sent at \<open>t0\<close>, and then \<open>NetworkProcess\<close> is called any
  number of times. If the packet has been delivered, \<open>AverageDelay\<close> is
  \<open>S div (C div 8) + D\<close> converted to the 32-bit \<open>int\<close> it returns, both divisions
  rounding down; this is \<open>S div (C div 8) + D\<close> itself whenever that value is in the range
  of \<open>int\<close>. The packet has been delivered when the queue bound is at least 1 and one of
  the calls is late enough, at a reading \<open>t \<ge> t0 + S div (C div 8) + max 0 D\<close>.
\<close>

theorem AverageDelay_single_packet:
  assumes "FakeNetworkPipe_new ql D C loss = Inr p0"
  shows "(received (run (map Process ts) (SendPacket buf t0 p0)) \<noteq> [] \<longrightarrow>
            AverageDelay (run (map Process ts) (SendPacket buf t0 p0))
              = to_cpp_int (int (length buf) div (C div 8) + D))
       \<and> (received (run (map Process ts) (SendPacket buf t0 p0)) \<noteq> []
            \<and> - 2147483648 \<le> int (length buf) div (C div 8) + D
            \<and> int (length buf) div (C div 8) + D < 2147483648 \<longrightarrow>
            AverageDelay (run (map Process ts) (SendPacket buf t0 p0))
              = int (length buf) div (C div 8) + D)
       \<and> (0 < ql \<and> (\<exists>t \<in> set ts. t0 + int (length buf) div (C div 8) + max 0 D \<le> t) \<longrightarrow>
            received (run (map Process ts) (SendPacket buf t0 p0)) = [(buf, int (length buf))])"
proof -
  from assms have C: "8 \<le> C"
    by (auto simp: FakeNetworkPipe_new_def Let_def sdiv8_pos split: if_splits)
  from assms have p0: "capacity_link p0 = []" "delay_link p0 = []" "queue_length p0 = ql"
    "sent_packets p0 = 0" "total_packet_delay p0 = 0" "queue_delay_ms p0 = D" "received p0 = []"
    "link_capacity_bytes_ms p0 = C sdiv 8"
    by (auto simp: FakeNetworkPipe_new_def Let_def split: if_splits)
  have c8: "C sdiv 8 = C div 8" "0 < C div 8"
    using C by (simp_all add: sdiv_nonneg_eq_div pos_imp_zdiv_pos_iff)
  let ?S = "int (length buf)"
  let ?a = "t0 + ?S div (C div 8)"
  let ?x = "NetworkPacket_new buf t0 ?a"
  let ?p1 = "SendPacket buf t0 p0"
  let ?r = "run (map Process ts) ?p1"
  let ?done = "?p1\<lparr>capacity_link := [],
             received := received ?p1 @ [(data ?x, data_length ?x)],
             sent_packets := sent_packets ?p1 + 1,
             total_packet_delay :=
               total_packet_delay ?p1 + (arrival_time ?x + queue_delay_ms ?p1 - send_time ?x)\<rparr>"
  have first: "AverageDelay ?r = to_cpp_int (?S div (C div 8) + D)"
    if rcv: "received ?r \<noteq> []"
  proof (cases "0 < ql")
    case False
    then have d: "?p1 = p0\<lparr>dropped_packets := dropped_packets p0 + 1\<rparr>"
      by (simp add: SendPacket_def p0)
    then have "?r = ?p1"
      by (simp add: run_idle p0)
    then have "received ?r = []"
      by (simp add: d p0)
    with rcv show ?thesis by simp
  next
    case True
    then have p1: "?p1 = p0\<lparr>capacity_link := [?x]\<rparr>"
      using c8 by (simp add: SendPacket_def p0 sdiv_nonneg_eq_div)
    have "capacity_link ?p1 = [?x]" "delay_link ?p1 = []"
      by (simp_all add: p1 p0)
    from run_capacity_cases [OF this, of ts] rcv have "?r = ?done"
      by (auto simp: p1 p0)
    then show ?thesis
      by (simp add: AverageDelay_def p1 p0 NetworkPacket_new_def)
  qed
  have second: "AverageDelay ?r = ?S div (C div 8) + D"
    if "received ?r \<noteq> []" and "- 2147483648 \<le> ?S div (C div 8) + D"
      and "?S div (C div 8) + D < 2147483648"
    using first [OF that(1)] to_cpp_int_in_range [OF that(2,3)] by simp
  have third: "received ?r = [(buf, ?S)]"
    if ql: "0 < ql" and late: "\<exists>t \<in> set ts. t0 + ?S div (C div 8) + max 0 D \<le> t"
  proof -
    have p1: "?p1 = p0\<lparr>capacity_link := [?x]\<rparr>"
      using ql c8 by (simp add: SendPacket_def p0 sdiv_nonneg_eq_div)
    have late': "\<exists>t \<in> set ts. arrival_time ?x + max 0 (queue_delay_ms ?p1) \<le> t"
      using late by (simp add: p1 p0 NetworkPacket_new_def)
    have "capacity_link ?p1 = [?x]" "delay_link ?p1 = []"
      by (simp_all add: p1 p0)
    from run_in_capacity [OF this late'] have "?r = ?done" .
    then show ?thesis
      by (simp add: p1 p0 NetworkPacket_new_def)
  qed
  from first second third show ?thesis by blast
qed

theorem AverageDelay_single_packet_witness:
  "FakeNetworkPipe_new 2 20 80 0 = Inr (test_pipe 2 20 10)
   \<and> (\<exists>t \<in> set [5, 15, 30 :: int].
         0 + int (length (replicate 100 (0 :: byte))) div (80 div 8) + max 0 20 \<le> t)
   \<and> received (run (map Process [5, 15, 30])
        (SendPacket (replicate 100 0) 0 (test_pipe 2 20 10))) \<noteq> []
   \<and> - 2147483648 \<le> int (length (replicate 100 (0 :: byte))) div (80 div 8) + 20
   \<and> int (length (replicate 100 (0 :: byte))) div (80 div 8) + 20 < 2147483648
   \<and> AverageDelay (run (map Process [5, 15, 30])
        (SendPacket (replicate 100 0) 0 (test_pipe 2 20 10))) = 30"
  using AverageDelay_single_packet [of 2 20 80 0 "test_pipe 2 20 10" "[5, 15, 30]"
      "replicate 100 0" 0]
  by (simp add: new_test_pipe [of 80, simplified] to_cpp_int_def)

text \<open>
  C4 as stated fails where \<open>S div (C div 8) + D\<close> is beyond the range of \<open>int\<close>: at
  80 kbps with queue delay \<open>2147483647\<close> ms, a 100-byte packet sent at 0 and delivered by
  a \<open>NetworkProcess\<close> call at \<open>2147483657\<close> has the delay \<open>10 + 2147483647\<close>, and
  \<open>AverageDelay\<close> returns \<open>- 2147483639\<close>.
\<close>

theorem AverageDelay_beyond_int:
  "FakeNetworkPipe_new 2 2147483647 80 0 = Inr (test_pipe 2 2147483647 10)
   \<and> received (run [Process 2147483657]
        (SendPacket (replicate 100 0) 0 (test_pipe 2 2147483647 10))) = [(replicate 100 0, 100)]
   \<and> AverageDelay (run [Process 2147483657]
        (SendPacket (replicate 100 0) 0 (test_pipe 2 2147483647 10))) = - 2147483639
   \<and> AverageDelay (run [Process 2147483657]
        (SendPacket (replicate 100 0) 0 (test_pipe 2 2147483647 10)))
      \<noteq> 100 div (80 div 8) + 2147483647"
  by (simp add: new_test_pipe [of 80, simplified] eval_pipe AverageDelay_def to_cpp_int_def)

section \<open>Theorems about Stats\<close>

text \<open>
  C10. On a freshly constructed \<open>Stats<T>\<close>, with no sample pushed, \<open>GetMean\<close>,
  \<open>GetVariance\<close>, \<open>GetMin\<close> and \<open>GetMax\<close> each return 0 (the zero of \<open>T\<close>) and no
  assertion fails; the state is left as it was, so this holds for any number of calls.
\<close>

theorem fresh_stats_getters:
  "GetMean ops (Stats_new ops) = Inr (T_zero ops, Stats_new ops)
   \<and> GetVariance ops (Stats_new ops) = Inr (T_zero ops, Stats_new ops)
   \<and> GetMin ops (Stats_new ops) = Inr (T_zero ops, Stats_new ops)
   \<and> GetMax ops (Stats_new ops) = Inr (T_zero ops, Stats_new ops)"
  by (simp add: GetMean_def GetVariance_def GetMin_def GetMax_def RefreshMinMax_def
      Stats_new_def)
















lemma accumulate_int: "accumulate int_arith xs a = a + sum_list xs"
  by (induction xs arbitrary: a) (simp_all add: int_arith_def)

lemma fold_min_int: "fold_min int_arith xs m = linorder_class.Min (insert m (set xs))"
proof (induction xs arbitrary: m)
  case Nil
  then show ?case by simp
next
  case (Cons x xs)
  have "std_min int_arith m x = min m x"
    by (simp add: std_min_def int_arith_def min_def)
  then show ?case
    using Cons.IH [of "min m x"] by (cases "xs = []") (simp_all add: min.assoc)
qed

lemma fold_max_int: "fold_max int_arith xs m = linorder_class.Max (insert m (set xs))"
proof (induction xs arbitrary: m)
  case Nil
  then show ?case by simp
next
  case (Cons x xs)
  have "std_max int_arith m x = max m x"
    by (simp add: std_max_def int_arith_def max_def)
  then show ?case
    using Cons.IH [of "max m x"] by (cases "xs = []") (simp_all add: max.assoc)
qed

lemma value_of_int:
  assumes "xs \<noteq> []"
  shows "value_of int_arith Mean xs = sum_list xs sdiv int (length xs)"
    and "value_of int_arith getter.Min xs = linorder_class.Min (set xs)"
    and "value_of int_arith getter.Max xs = linorder_class.Max (set xs)"
proof -
  have sel: "T_zero int_arith = 0" "T_div int_arith = (sdiv)" "T_of_size int_arith = int"
    by (simp_all add: int_arith_def)
  show "value_of int_arith Mean xs = sum_list xs sdiv int (length xs)"
    using assms by (simp add: mean_of_def accumulate_int sel)
  show "value_of int_arith getter.Min xs = linorder_class.Min (set xs)"
    using assms by (cases xs) (simp_all add: min_of_def fold_min_int)
  show "value_of int_arith getter.Max xs = linorder_class.Max (set xs)"
    using assms by (cases xs) (simp_all add: max_of_def fold_max_int)
qed


text \<open>The model run on numbers, with \<open>T = int\<close>: samples 1, 2, 6 in two batches.\<close>

lemma stats_int_example:
  "map_sum id fst (GetMean int_arith (push_all [6] (push_all [1, 2] (Stats_new int_arith))))
     = Inr 3
   \<and> map_sum id fst
        (GetVariance int_arith (push_all [6] (push_all [1, 2] (Stats_new int_arith))))
     = Inr 4
   \<and> map_sum id fst (GetMin int_arith (push_all [6] (push_all [1, 2] (Stats_new int_arith))))
     = Inr 1
   \<and> map_sum id fst (GetMax int_arith (push_all [6] (push_all [1, 2] (Stats_new int_arith))))
     = Inr 6"
  by (simp add: GetMean_def GetVariance_def GetMin_def GetMax_def RefreshMinMax_def
      Stats_new_def Push_def int_arith_def std_min_def std_max_def Let_def
      signed_divide_int_def)

end
